theory Spec2Isabelle
  imports Complex_Main
begin

section \<open>Monte Carlo estimation of pi: the simulation and its plot\<close>

text \<open>
  The development embeds the two functions of \<^verbatim>\<open>pi_app_v1.1.py\<close> that carry the
  program's logic, \<^verbatim>\<open>run_pi_simulation\<close> (lines 67-87) and \<^verbatim>\<open>plot_simulation\<close>
  (lines 89-131).  The Streamlit page around them (titles, markdown, slider, button) only
  supplies \<^verbatim>\<open>n_points\<close> and displays what the two functions return.

  Conventions of the embedding:
  \<^item> Python integers are \<open>int\<close>.  A NumPy array of one dimension is a list.
  \<^item> A finite float64 value is the rational number it denotes; every float64 operation is
    the exact operation followed by \<open>round_f64\<close>, the rounding to the nearest float64 with
    ties to even.  Infinities and NaN are not values of the model: with coordinates in
    \<open>[-1, 1]\<close> no operation of the program leaves the finite range.
  \<^item> \<^verbatim>\<open>np.random.uniform\<close> belongs to NumPy, not to this program, and draws from an
    ambient generator.  It is a parameter \<open>uniform\<close> of the model, and the generator's state
    is passed in and returned.
  \<^item> An exception, and the division by zero that NumPy reports, is a value \<open>Inl e\<close>;
    \<open>and_then\<close> runs the rest of a function on the value of a step that did not fail.
  \<^item> Allocation failure is outside the model: arrays are far shorter than \<open>2 ^ 53\<close>, so the
    counts convert to float64 exactly and \<^verbatim>\<open>4 * points_inside\<close> stays inside int64.
\<close>

subsection \<open>float64 arithmetic\<close>

type_synonym float64 = rat

text \<open>\<open>ilog2 n\<close> is the index of the highest set bit of \<open>n\<close>.\<close>

function ilog2 :: "int \<Rightarrow> int" where
  "ilog2 n = (if n < 2 then 0 else 1 + ilog2 (n div 2))"
  by pat_completeness auto

termination
  by (relation "measure nat") auto

declare ilog2.simps [simp del]

definition pow2 :: "int \<Rightarrow> rat" where
  "pow2 e = (if 0 \<le> e then 2 ^ nat e else 1 / 2 ^ nat (- e))"

text \<open>The binary exponent of a non-zero rational: the \<open>e\<close> with \<open>2^e \<le> |q| < 2^(e+1)\<close>.\<close>

definition exponent :: "rat \<Rightarrow> int" where
  "exponent q =
     (let (a, b) = quotient_of \<bar>q\<bar>;
          d = ilog2 a - ilog2 b
      in if pow2 d \<le> \<bar>q\<bar> then d else d - 1)"

definition round_half_even :: "rat \<Rightarrow> int" where
  "round_half_even q =
     (let f = \<lfloor>q\<rfloor>; r = q - of_int f
      in if r < 1 / 2 then f
         else if 1 / 2 < r then f + 1
         else if even f then f else f + 1)"

text \<open>
  Rounding to float64: 53 significant bits, so the last place of a value with binary
  exponent \<open>e\<close> weighs \<open>2^(e - 52)\<close>; below the smallest normal exponent \<open>-1022\<close> the
  spacing stays that of the subnormal numbers.
\<close>

definition round_f64 :: "rat \<Rightarrow> float64" where
  "round_f64 q =
     (if q = 0 then 0
      else let e = max (exponent q) (- 1022) - 52
           in of_int (round_half_even (q / pow2 e)) * pow2 e)"

text \<open>The three float64 operations of the program: exact result, then one rounding.\<close>

definition f64_mul :: "float64 \<Rightarrow> float64 \<Rightarrow> float64" where
  "f64_mul u v = round_f64 (u * v)"

definition f64_add :: "float64 \<Rightarrow> float64 \<Rightarrow> float64" where
  "f64_add u v = round_f64 (u + v)"

definition f64_div :: "float64 \<Rightarrow> float64 \<Rightarrow> float64" where
  "f64_div u v = round_f64 (u / v)"

subsection \<open>The NumPy operations the simulation uses\<close>

datatype error = ValueError | ZeroDivisionError | IndexError

definition and_then :: "error + 'a \<Rightarrow> ('a \<Rightarrow> error + 'b) \<Rightarrow> error + 'b" where
  "and_then step rest = (case step of Inl e \<Rightarrow> Inl e | Inr v \<Rightarrow> rest v)"

text \<open>\<^verbatim>\<open>a**2\<close>: the elementwise square.\<close>

definition np_square :: "float64 list \<Rightarrow> float64 list" where
  "np_square a = map (\<lambda>v. f64_mul v v) a"

text \<open>
  \<^verbatim>\<open>a + b\<close> on arrays of one dimension: elementwise on equal lengths, an array of length
  one is broadcast, any other pair of lengths raises \<^verbatim>\<open>ValueError\<close>.
\<close>

definition np_add :: "float64 list \<Rightarrow> float64 list \<Rightarrow> error + float64 list" where
  "np_add a b =
     (if length a = length b then Inr (map2 f64_add a b)
      else if length a = 1 then Inr (map (\<lambda>v. f64_add (hd a) v) b)
      else if length b = 1 then Inr (map (\<lambda>u. f64_add u (hd b)) a)
      else Inl ValueError)"

text \<open>\<^verbatim>\<open>a <= c\<close> against a scalar: the array of booleans.\<close>

definition np_le_scalar :: "float64 list \<Rightarrow> float64 \<Rightarrow> bool list" where
  "np_le_scalar a c = map (\<lambda>v. v \<le> c) a"

text \<open>\<^verbatim>\<open>np.sum\<close> of a boolean array adds one for every \<^verbatim>\<open>True\<close>.\<close>

definition np_sum :: "bool list \<Rightarrow> int" where
  "np_sum m = sum_list (map (\<lambda>b. if b then 1 else 0) m)"

text \<open>\<^verbatim>\<open>a / b\<close> of two integers: the float64 quotient; a zero divisor is the error.\<close>

definition true_divide :: "int \<Rightarrow> int \<Rightarrow> error + float64" where
  "true_divide a b =
     (if b = 0 then Inl ZeroDivisionError else Inr (f64_div (of_int a) (of_int b)))"

subsection \<open>The random source\<close>

text \<open>
  \<open>uniform low high size rng\<close> stands for \<^verbatim>\<open>np.random.uniform(low, high, size)\<close>: it
  returns the array drawn and the generator's next state.
\<close>

type_synonym 's sampler = "float64 \<Rightarrow> float64 \<Rightarrow> nat \<Rightarrow> 's \<Rightarrow> float64 list \<times> 's"

text \<open>The one part of NumPy's contract the proofs rely on: \<open>size\<close> values are returned.\<close>

definition sampler_ok :: "'s sampler \<Rightarrow> bool" where
  "sampler_ok uniform = (\<forall>low high n rng. length (fst (uniform low high n rng)) = n)"

text \<open>
  Modelled from the spec: \<^verbatim>\<open>np.random.uniform\<close> is NumPy's, and its code is not among the
  repository's files.  The spec has every coordinate "drawn from a continuous uniform
  distribution on [-1, 1]".  Of that the model keeps the support, which is what one run can
  show: a sampler asked for the interval from \<open>low\<close> to \<open>high\<close> returns values inside
  it.  The probability law on the interval is not expressed.
\<close>

definition sampler_in_range :: "'s sampler \<Rightarrow> bool" where
  "sampler_in_range uniform =
     (\<forall>low high n rng. low \<le> high \<longrightarrow>
        (\<forall>v \<in> set (fst (uniform low high n rng)). low \<le> v \<and> v \<le> high))"

text \<open>
  Two stand-in samplers.  \<open>scripted_uniform\<close> hands out arrays queued in advance, whatever
  is asked for.  \<open>counter_uniform\<close> is a small deterministic generator: its state is a
  counter, and draw number \<open>k\<close> sits at the fraction \<open>(3 k mod 8) / 8\<close> of the interval.
\<close>

definition scripted_uniform :: "(float64 list list) sampler" where
  "scripted_uniform low high n rng =
     (case rng of [] \<Rightarrow> ([], []) | a # rest \<Rightarrow> (a, rest))"

definition counter_uniform :: "nat sampler" where
  "counter_uniform low high n rng =
     (map (\<lambda>k. low + (high - low) * (of_nat ((rng + k) * 3 mod 8) / 8)) [0..<n],
      rng + n)"

subsection \<open>\<^verbatim>\<open>run_pi_simulation\<close>\<close>

text \<open>
  The function returns a tuple of six; the fields carry the names the caller gives them
  (line 137).
\<close>

record sim_result =
  x_coords :: "float64 list"
  y_coords :: "float64 list"
  is_inside :: "bool list"
  estimate :: float64
  inside_count :: int
  total_count :: int

definition run_pi_simulation :: "'s sampler \<Rightarrow> int \<Rightarrow> 's \<Rightarrow> (error + sim_result) \<times> 's" where
  "run_pi_simulation uniform num_points rng =
     (if num_points \<le> 0 then
        (Inr \<lparr>x_coords = [], y_coords = [], is_inside = [],
              estimate = 0, inside_count = 0, total_count = 0\<rparr>, rng)
      else
        let (x, rng1) = uniform (- 1) 1 (nat num_points) rng;
            (y, rng2) = uniform (- 1) 1 (nat num_points) rng1
        in (and_then (np_add (np_square x) (np_square y)) (\<lambda>distance_sq.
              let inside_circle = np_le_scalar distance_sq 1;
                  points_inside = np_sum inside_circle;
                  points_total = num_points
              in and_then (if points_total > 0
                           then true_divide (4 * points_inside) points_total
                           else Inr 0) (\<lambda>pi_estimate.
                   Inr \<lparr>x_coords = x, y_coords = y, is_inside = inside_circle,
                        estimate = pi_estimate, inside_count = points_inside,
                        total_count = points_total\<rparr>)),
            rng2))"

text \<open>The flags as a function of the two coordinate arrays (lines 77 and 80 together).\<close>

definition flags_of :: "float64 list \<Rightarrow> float64 list \<Rightarrow> bool list" where
  "flags_of x y = map2 (\<lambda>u v. f64_add (f64_mul u u) (f64_mul v v) \<le> 1) x y"

text \<open>The run of \<open>counter_uniform\<close> on three points from state \<open>0\<close>, written out.\<close>

definition counter_run :: sim_result where
  "counter_run =
     \<lparr>x_coords = [- 1, - 1 / 4, 1 / 2], y_coords = [- 3 / 4, 0, 3 / 4],
      is_inside = [False, True, True],
      estimate = 6004799503160661 / 2251799813685248,
      inside_count = 2, total_count = 3\<rparr>"

subsection \<open>\<^verbatim>\<open>plot_simulation\<close>\<close>

text \<open>
  The figure is modelled by what the function asks Matplotlib to draw: the size of the
  figure and the calls made on its axes, in the order of the source.  The two formatted
  strings (the annotation of line 100 and the title of line 120) are kept as the values
  they interpolate.  The arguments of the constructors, in order:
  \<^item> \<open>Scatter\<close>: x values, y values, color, alpha, marker size, label;
  \<^item> \<open>Text\<close>: x, y, content, vertical alignment, horizontal alignment, the box if any;
  \<^item> \<open>BBox\<close>: box style, face color, alpha;
  \<^item> \<open>Legend\<close>: the labels shown, location;
  \<^item> \<open>Circle\<close>: centre, radius, color, fill, line width, label;
  \<^item> \<open>Rectangle\<close>: lower left corner, width, height, color, fill, line width, label;
  \<^item> \<open>Set_aspect\<close>: aspect, adjustable; \<open>Grid\<close>: visible, line style, alpha.
\<close>

datatype text_content =
    Plain string
  | Stats int int float64
  | Title int

datatype bbox = BBox string string float64

datatype patch =
    Circle "float64 \<times> float64" float64 string bool float64 string
  | Rectangle "float64 \<times> float64" float64 float64 string bool float64 string

datatype axes_call =
    Scatter "float64 list" "float64 list" string float64 float64 string
  | Text float64 float64 text_content string string "bbox option"
  | Legend "string list" string
  | Add_patch patch
  | Set_xlim float64 float64
  | Set_ylim float64 float64
  | Set_aspect string string
  | Set_xlabel string
  | Set_ylabel string
  | Set_title text_content
  | Grid bool string float64

record figure =
  figsize :: "nat \<times> nat"
  axes_calls :: "axes_call list"
  tight_layout :: bool

text \<open>
  \<^verbatim>\<open>a[mask]\<close> keeps the entries whose mask is \<^verbatim>\<open>True\<close>; a mask of another length
  raises \<^verbatim>\<open>IndexError\<close>.  \<^verbatim>\<open>~mask\<close> negates every entry.
\<close>

definition mask_select :: "'a list \<Rightarrow> bool list \<Rightarrow> error + 'a list" where
  "mask_select a m =
     (if length m = length a then Inr (map fst (filter snd (zip a m)))
      else Inl IndexError)"

definition np_invert :: "bool list \<Rightarrow> bool list" where
  "np_invert m = map Not m"

text \<open>\<^verbatim>\<open>ax.scatter\<close> refuses coordinate arrays of different sizes.\<close>

definition scatter ::
  "float64 list \<Rightarrow> float64 list \<Rightarrow> string \<Rightarrow> float64 \<Rightarrow> float64 \<Rightarrow> string \<Rightarrow> error + axes_call" where
  "scatter px py color alpha s label =
     (if length px = length py then Inr (Scatter px py color alpha s label)
      else Inl ValueError)"

text \<open>The labels a legend shows: those of the scatters and patches drawn so far.\<close>

fun legend_label :: "axes_call \<Rightarrow> string list" where
  "legend_label (Scatter _ _ _ _ _ label) = [label]"
| "legend_label (Add_patch (Circle _ _ _ _ _ label)) = [label]"
| "legend_label (Add_patch (Rectangle _ _ _ _ _ _ label)) = [label]"
| "legend_label _ = []"

definition get_legend_handles_labels :: "axes_call list \<Rightarrow> string list" where
  "get_legend_handles_labels calls = concat (map legend_label calls)"

text \<open>The first branch of line 94: two scatters, the annotation box, a legend.\<close>

definition plot_points ::
  "float64 list \<Rightarrow> float64 list \<Rightarrow> bool list \<Rightarrow> float64 \<Rightarrow> int \<Rightarrow> int \<Rightarrow> error + axes_call list" where
  "plot_points x y inside_circle pi_estimate points_inside points_total =
     and_then (mask_select x inside_circle) (\<lambda>xi.
     and_then (mask_select y inside_circle) (\<lambda>yi.
     and_then (scatter xi yi ''blue'' (1 / 2) 5 ''Inside Circle'') (\<lambda>s1.
     and_then (mask_select x (np_invert inside_circle)) (\<lambda>xo.
     and_then (mask_select y (np_invert inside_circle)) (\<lambda>yo.
     and_then (scatter xo yo ''red'' (1 / 2) 5 ''Outside Circle'') (\<lambda>s2.
       Inr [s1, s2,
            Text (- 105 / 100) (105 / 100) (Stats points_inside points_total pi_estimate)
                 ''top'' ''left'' (Some (BBox ''round,pad=0.5'' ''wheat'' (8 / 10))),
            Legend (get_legend_handles_labels [s1, s2]) ''upper right'']))))))"

definition plot_simulation ::
  "float64 list \<Rightarrow> float64 list \<Rightarrow> bool list \<Rightarrow> float64 \<Rightarrow> int \<Rightarrow> int \<Rightarrow> error + figure" where
  "plot_simulation x y inside_circle pi_estimate points_inside points_total =
     and_then (if points_total > 0
               then plot_points x y inside_circle pi_estimate points_inside points_total
               else Inr [Text 0 0 (Plain ''No points generated'') ''center'' ''center'' None])
       (\<lambda>drawn.
          let circle = Circle (0, 0) 1 ''green'' False 2 ''Circle Boundary (r=1)'';
              square = Rectangle (- 1, - 1) 2 2 ''black'' False 2 ''Square Boundary'';
              calls = drawn @
                [Add_patch circle, Add_patch square,
                 Set_xlim (- 11 / 10) (11 / 10), Set_ylim (- 11 / 10) (11 / 10),
                 Set_aspect ''equal'' ''box'',
                 Set_xlabel ''X-coordinate'', Set_ylabel ''Y-coordinate'',
                 Set_title (Title points_total),
                 Grid True ''--'' (6 / 10)];
              calls = (if points_total > 0
                       then calls @ [Legend (get_legend_handles_labels calls) ''upper right'']
                       else calls)
          in Inr \<lparr>figsize = (8, 8), axes_calls = calls, tight_layout = True\<rparr>)"

text \<open>What a reader of the figure looks for.\<close>

fun is_scatter :: "axes_call \<Rightarrow> bool" where
  "is_scatter (Scatter _ _ _ _ _ _) = True"
| "is_scatter _ = False"

fun is_legend :: "axes_call \<Rightarrow> bool" where
  "is_legend (Legend _ _) = True"
| "is_legend _ = False"

fun is_boxed_text :: "axes_call \<Rightarrow> bool" where
  "is_boxed_text (Text _ _ _ _ _ (Some _)) = True"
| "is_boxed_text _ = False"

section \<open>Facts about the float64 rounding\<close>

lemma pow2_powi: "pow2 e = 2 powi e"
  by (simp add: pow2_def power_int_def inverse_eq_divide power_one_over)

lemma pow2_pos: "0 < pow2 e"
  by (simp add: pow2_powi)

lemma pow2_add: "pow2 (a + b) = pow2 a * pow2 b"
  by (simp add: pow2_powi power_int_add)

lemma pow2_diff: "pow2 (a - b) = pow2 a / pow2 b"
  by (simp add: pow2_powi power_int_diff)

lemma pow2_mono: "a \<le> b \<Longrightarrow> pow2 a \<le> pow2 b"
  by (simp add: pow2_powi power_int_increasing)

lemma pow2_strict_mono: "a < b \<Longrightarrow> pow2 a < pow2 b"
  by (simp add: pow2_powi power_int_strict_increasing)

lemma pow2_le_imp_le: "pow2 a \<le> pow2 b \<Longrightarrow> a \<le> b"
  using pow2_strict_mono [of b a] by (cases "a \<le> b") simp_all

lemma pow2_nonneg_of_int: "0 \<le> e \<Longrightarrow> pow2 e = of_int (2 ^ nat e)"
  by (simp add: pow2_def)

lemma pow2_succ_of_int: "0 \<le> e \<Longrightarrow> pow2 (e + 1) = of_int (2 * 2 ^ nat e)"
  by (simp add: pow2_def nat_add_distrib)

lemma ilog2_nonneg: "0 \<le> ilog2 n"
  by (induction n rule: ilog2.induct) (subst ilog2.simps, simp)

lemma ilog2_bounds:
  "0 < n \<Longrightarrow> 2 ^ nat (ilog2 n) \<le> n \<and> n < 2 * 2 ^ nat (ilog2 n)"
proof (induction n rule: ilog2.induct)
  case (1 n)
  show ?case
  proof (cases "n < 2")
    case True
    with "1.prems" have "n = 1" by simp
    then show ?thesis by (subst (1 2) ilog2.simps) simp
  next
    case False
    then have pos: "0 < n div 2" by simp
    from "1.IH" [OF False pos]
    have ih: "2 ^ nat (ilog2 (n div 2)) \<le> n div 2" "n div 2 < 2 * 2 ^ nat (ilog2 (n div 2))"
      by simp_all
    have eq: "ilog2 n = 1 + ilog2 (n div 2)"
      using False by (subst ilog2.simps) simp
    have p: "(2::int) ^ nat (1 + ilog2 (n div 2)) = 2 * 2 ^ nat (ilog2 (n div 2))"
      using ilog2_nonneg [of "n div 2"] by (simp add: nat_add_distrib)
    show ?thesis unfolding eq p using ih by linarith
  qed
qed


lemma quotient_of_abs_pos:
  assumes "q \<noteq> 0" "quotient_of \<bar>q\<bar> = (a, b)"
  shows "0 < a" "0 < b" "\<bar>q\<bar> = of_int a / of_int b"
proof -
  show b: "0 < b" using assms(2) by (rule quotient_of_denom_pos)
  show eq: "\<bar>q\<bar> = of_int a / of_int b" using assms(2) by (rule quotient_of_div)
  have "0 < \<bar>q\<bar>" using assms(1) by simp
  then have "0 < (of_int a :: rat) / of_int b" using eq by simp
  then show "0 < a" using b by (simp add: zero_less_divide_iff)
qed

lemma exponent_lower: 
  assumes "q \<noteq> 0"
  shows "pow2 (exponent q) \<le> \<bar>q\<bar>"
proof -
  obtain a b where ab: "quotient_of \<bar>q\<bar> = (a, b)" by (cases "quotient_of \<bar>q\<bar>")
  note f = quotient_of_abs_pos [OF assms ab]
  define d where "d = ilog2 a - ilog2 b"
  have ex: "exponent q = (if pow2 d \<le> \<bar>q\<bar> then d else d - 1)"
    by (simp add: exponent_def ab d_def Let_def)
  show ?thesis
  proof (cases "pow2 d \<le> \<bar>q\<bar>")
    case True
    then show ?thesis by (simp add: ex)
  next
    case False
    have la: "pow2 (ilog2 a) \<le> of_int a"
      using ilog2_bounds [OF f(1)] ilog2_nonneg [of a]
      by (simp add: pow2_nonneg_of_int del: of_int_power)
    have "of_int b < (of_int (2 * 2 ^ nat (ilog2 b)) :: rat)"
      using ilog2_bounds [OF f(2)] by (simp only: of_int_less_iff)
    also have "\<dots> = pow2 (ilog2 b + 1)"
      using ilog2_nonneg [of b] by (simp only: pow2_succ_of_int)
    finally have lb: "of_int b < pow2 (ilog2 b + 1)" .
    have "pow2 (d - 1) = pow2 (ilog2 a) / pow2 (ilog2 b + 1)"
      by (simp add: d_def pow2_diff [symmetric] algebra_simps)
    also have "\<dots> \<le> of_int a / pow2 (ilog2 b + 1)"
      using la pow2_pos [of "ilog2 b + 1"] by (simp add: divide_right_mono)
    also have "\<dots> \<le> of_int a / of_int b"
      using lb f(1,2) by (simp add: frac_le)
    finally show ?thesis using False by (simp add: ex f(3))
  qed
qed

lemma exponent_upper: 
  assumes "q \<noteq> 0"
  shows "\<bar>q\<bar> < pow2 (exponent q + 1)"
proof -
  obtain a b where ab: "quotient_of \<bar>q\<bar> = (a, b)" by (cases "quotient_of \<bar>q\<bar>")
  note f = quotient_of_abs_pos [OF assms ab]
  define d where "d = ilog2 a - ilog2 b"
  have ex: "exponent q = (if pow2 d \<le> \<bar>q\<bar> then d else d - 1)"
    by (simp add: exponent_def ab d_def Let_def)
  show ?thesis
  proof (cases "pow2 d \<le> \<bar>q\<bar>")
    case False
    then show ?thesis by (simp add: ex)
  next
    case True
    have lb: "pow2 (ilog2 b) \<le> of_int b"
      using ilog2_bounds [OF f(2)] ilog2_nonneg [of b]
      by (simp add: pow2_nonneg_of_int del: of_int_power)
    have "of_int a < (of_int (2 * 2 ^ nat (ilog2 a)) :: rat)"
      using ilog2_bounds [OF f(1)] by (simp only: of_int_less_iff)
    also have "\<dots> = pow2 (ilog2 a + 1)"
      using ilog2_nonneg [of a] by (simp only: pow2_succ_of_int)
    finally have la: "of_int a < pow2 (ilog2 a + 1)" .
    have "of_int a / of_int b < pow2 (ilog2 a + 1) / (of_int b :: rat)"
      using la f(2) by (simp add: divide_strict_right_mono)
    also have "\<dots> \<le> pow2 (ilog2 a + 1) / pow2 (ilog2 b)"
      using lb pow2_pos [of "ilog2 b"] pow2_pos [of "ilog2 a + 1"] by (simp add: frac_le)
    also have "\<dots> = pow2 (d + 1)"
      by (simp add: d_def pow2_diff [symmetric] algebra_simps)
    finally show ?thesis using True by (simp add: ex f(3))
  qed
qed


lemma round_half_even_of_int: "round_half_even (of_int k) = k"
  by (simp add: round_half_even_def)

lemma round_half_even_bounds:
  "\<lfloor>q\<rfloor> \<le> round_half_even q" "round_half_even q \<le> \<lfloor>q\<rfloor> + 1"
  by (simp_all add: round_half_even_def Let_def)

lemma round_half_even_mono:
  assumes "a \<le> b"
  shows "round_half_even a \<le> round_half_even b"
proof (cases "\<lfloor>a\<rfloor> = \<lfloor>b\<rfloor>")
  case True
  then show ?thesis using assms by (simp add: round_half_even_def Let_def)
next
  case False
  then have "\<lfloor>a\<rfloor> + 1 \<le> \<lfloor>b\<rfloor>" using floor_mono [OF assms] by simp
  then show ?thesis
    using round_half_even_bounds(2) [of a] round_half_even_bounds(1) [of b] by linarith
qed

lemma round_f64_nonneg:
  assumes "0 \<le> q"
  shows "0 \<le> round_f64 q"
proof (cases "q = 0")
  case True
  then show ?thesis by (simp add: round_f64_def)
next
  case False
  define e where "e = max (exponent q) (- 1022) - 52"
  have "0 \<le> q / pow2 e" using assms pow2_pos [of e] by simp
  from round_half_even_mono [OF this]
  have "0 \<le> round_half_even (q / pow2 e)"
    using round_half_even_of_int [of 0] by simp
  then show ?thesis
    using False pow2_pos [of e] by (simp add: round_f64_def e_def [symmetric] Let_def)
qed

lemma round_f64_le_pow2:
  assumes le: "q \<le> pow2 k" and k: "- 1074 \<le> k"
  shows "round_f64 q \<le> pow2 k"
proof (cases "q = 0")
  case True
  then show ?thesis using pow2_pos [of k] by (simp add: round_f64_def)
next
  case False
  define e where "e = max (exponent q) (- 1022) - 52"
  have rf: "round_f64 q = of_int (round_half_even (q / pow2 e)) * pow2 e"
    using False by (simp add: round_f64_def e_def Let_def)
  show ?thesis
  proof (cases "q < 0")
    case True
    then have "q / pow2 e \<le> 0" using pow2_pos [of e] by (simp add: divide_le_0_iff)
    from round_half_even_mono [OF this]
    have "round_half_even (q / pow2 e) \<le> 0"
      using round_half_even_of_int [of 0] by simp
    then have "round_f64 q \<le> 0"
      unfolding rf using pow2_pos [of e] by (simp add: mult_le_0_iff)
    then show ?thesis using pow2_pos [of k] by linarith
  next
    case nonneg: False
    then have qpos: "0 < q" using False by simp
    have "pow2 (exponent q) \<le> pow2 k"
      using exponent_lower [OF False] qpos le by simp
    then have "exponent q \<le> k" by (rule pow2_le_imp_le)
    then have ek: "e \<le> k" using k by (simp add: e_def)
    have "pow2 k / pow2 e = pow2 (k - e)" by (simp add: pow2_diff)
    also have "\<dots> = of_int (2 ^ nat (k - e))" using ek by (simp add: pow2_nonneg_of_int)
    finally have int: "pow2 k / pow2 e = of_int (2 ^ nat (k - e))" .
    have "q / pow2 e \<le> pow2 k / pow2 e"
      using le pow2_pos [of e] by (simp add: divide_right_mono)
    from round_half_even_mono [OF this]
    have "round_half_even (q / pow2 e) \<le> 2 ^ nat (k - e)"
      unfolding int round_half_even_of_int .
    then have "(of_int (round_half_even (q / pow2 e)) :: rat) \<le> of_int (2 ^ nat (k - e))"
      by (simp only: of_int_le_iff)
    then have "of_int (round_half_even (q / pow2 e)) * pow2 e \<le> of_int (2 ^ nat (k - e)) * pow2 e"
      using pow2_pos [of e] by (simp add: mult_right_mono)
    also have "\<dots> = pow2 k" using int [symmetric] pow2_pos [of e] by simp
    finally show ?thesis unfolding rf .
  qed
qed

lemma exponent_unique:
  assumes "q \<noteq> 0" "pow2 e \<le> \<bar>q\<bar>" "\<bar>q\<bar> < pow2 (e + 1)"
  shows "exponent q = e"
proof -
  have "pow2 (exponent q) < pow2 (e + 1)"
    using exponent_lower [OF assms(1)] assms(3) by simp
  then have "exponent q < e + 1"
    using pow2_mono [of "e + 1" "exponent q"] by (cases "exponent q < e + 1") simp_all
  moreover have "pow2 e < pow2 (exponent q + 1)"
    using exponent_upper [OF assms(1)] assms(2) by simp
  then have "e < exponent q + 1"
    using pow2_mono [of "exponent q + 1" e] by (cases "e < exponent q + 1") simp_all
  ultimately show ?thesis by simp
qed

lemma round_half_even_upper: "of_int (round_half_even q) \<le> q + 1 / 2"
proof -
  define r where "r = q - of_int \<lfloor>q\<rfloor>"
  have f: "of_int \<lfloor>q\<rfloor> = q - r" by (simp add: r_def)
  have r0: "0 \<le> r" by (simp add: r_def)
  have rhe: "round_half_even q =
      (if r < 1 / 2 then \<lfloor>q\<rfloor> else if 1 / 2 < r then \<lfloor>q\<rfloor> + 1
       else if even \<lfloor>q\<rfloor> then \<lfloor>q\<rfloor> else \<lfloor>q\<rfloor> + 1)"
    by (simp add: round_half_even_def Let_def r_def)
  consider "r < 1 / 2" | "1 / 2 < r" | "r = 1 / 2" by linarith
  then show ?thesis
  proof cases
    case 1
    then show ?thesis using r0 by (simp add: rhe f)
  next
    case 2
    then show ?thesis by (simp add: rhe f)
  next
    case 3
    then show ?thesis by (simp add: rhe f)
  qed
qed

lemma round_f64_upper_half_ulp:
  assumes "q \<noteq> 0"
  shows "round_f64 q \<le> q + pow2 (max (exponent q) (- 1022) - 53)"
proof -
  define e where "e = max (exponent q) (- 1022) - 52"
  have "round_f64 q = of_int (round_half_even (q / pow2 e)) * pow2 e"
    using assms by (simp add: round_f64_def e_def Let_def)
  also have "\<dots> \<le> (q / pow2 e + 1 / 2) * pow2 e"
    using round_half_even_upper [of "q / pow2 e"] pow2_pos [of e]
    by (simp only: mult_le_cancel_right_pos)
  also have "\<dots> = q + pow2 e / 2"
    using pow2_pos [of e] by (simp add: algebra_simps)
  also have "pow2 e / 2 = pow2 (e - 1)"
    using pow2_diff [of e 1] by (simp add: pow2_def [of 1])
  finally show ?thesis by (simp add: e_def)
qed

lemma round_f64_below_one:
  assumes "0 \<le> t" "t < 1"
  shows "round_f64 t \<le> t + pow2 (- 54)"
proof (cases "t = 0")
  case True
  then show ?thesis using pow2_pos [of "- 54"] by (simp add: round_f64_def)
next
  case False
  have "pow2 (exponent t) < pow2 0"
    using exponent_lower [OF False] assms by (simp add: pow2_def)
  then have "exponent t < 0"
    using pow2_mono [of 0 "exponent t"] by (cases "exponent t < 0") simp_all
  then have "max (exponent t) (- 1022) - 53 \<le> - 54" by simp
  then have "pow2 (max (exponent t) (- 1022) - 53) \<le> pow2 (- 54)" by (rule pow2_mono)
  then show ?thesis using round_f64_upper_half_ulp [OF False] by linarith
qed

lemma round_f64_tie_at_one:
  assumes "q \<le> 1 + pow2 (- 53)"
  shows "round_f64 q \<le> 1"
proof (cases "q \<le> 1")
  case True
  then have "q \<le> pow2 0" by (simp add: pow2_def)
  from round_f64_le_pow2 [OF this] show ?thesis by (simp add: pow2_def)
next
  case False
  then have q1: "1 < q" by simp
  then have q0: "q \<noteq> 0" by simp
  have "pow2 (- 53) < 1" using pow2_strict_mono [of "- 53" 0] by (simp add: pow2_def)
  then have "q < 2" using assms by simp
  then have ex: "exponent q = 0"
    using q1 by (intro exponent_unique [OF q0]) (simp_all add: pow2_def)
  define m where "m = q / pow2 (- 52)"
  have rf: "round_f64 q = of_int (round_half_even m) * pow2 (- 52)"
    using q0 by (simp add: round_f64_def ex m_def)
  have p52: "pow2 (- 52) = 1 / 2 ^ 52" "pow2 (- 53) = 1 / 2 ^ 53" by (simp_all add: pow2_def)
  have m_eq: "m = q * 2 ^ 52" by (simp add: m_def p52)
  have lo: "2 ^ 52 < m" using q1 by (simp add: m_eq)
  have "q * 2 ^ 52 \<le> (1 + 1 / 2 ^ 53) * 2 ^ 52"
    using assms unfolding p52 by (simp only: mult_le_cancel_right_pos zero_less_power zero_less_numeral)
  then have hi: "m \<le> 2 ^ 52 + 1 / 2" by (simp add: m_eq algebra_simps)
  have fl: "\<lfloor>m\<rfloor> = 2 ^ 52"
    using lo hi by (intro floor_unique) simp_all
  have "round_half_even m = 2 ^ 52"
    using hi by (simp add: round_half_even_def fl Let_def)
  then show ?thesis by (simp add: rf p52)
qed

lemma inside_when_exactly_inside:
  assumes "x * x + y * y \<le> 1"
  shows "f64_add (f64_mul x x) (f64_mul y y) \<le> 1"
proof -
  have bound: "round_f64 t \<le> t + pow2 (- 54) \<and> (t = 1 \<longrightarrow> round_f64 t \<le> 1)"
    if "0 \<le> t" "t \<le> 1" for t
  proof (cases "t = 1")
    case True
    have "round_f64 1 \<le> pow2 0" by (rule round_f64_le_pow2) (simp_all add: pow2_def)
    then show ?thesis using True pow2_pos [of "- 54"] by (simp add: pow2_def)
  next
    case False
    then show ?thesis using that round_f64_below_one [of t] by simp
  qed
  have s0: "0 \<le> x * x" and t0: "0 \<le> y * y" by simp_all
  have s1: "x * x \<le> 1" and t1: "y * y \<le> 1" using assms s0 t0 by linarith+
  have half: "pow2 (- 54) + pow2 (- 54) = pow2 (- 53)" by (simp add: pow2_def)
  have "round_f64 (x * x) + round_f64 (y * y) \<le> 1 + pow2 (- 53)"
  proof (cases "x * x = 1 \<or> y * y = 1")
    case True
    then show ?thesis
    proof
      assume x1: "x * x = 1"
      then have "y * y = 0" using assms t0 by linarith
      then have "round_f64 (y * y) = 0" by (simp add: round_f64_def)
      then show ?thesis using bound [OF s0 s1] x1 pow2_pos [of "- 53"] by simp
    next
      assume y1: "y * y = 1"
      then have "x * x = 0" using assms s0 by linarith
      then have "round_f64 (x * x) = 0" by (simp add: round_f64_def)
      then show ?thesis using bound [OF t0 t1] y1 pow2_pos [of "- 53"] by simp
    qed
  next
    case False
    then show ?thesis using bound [OF s0 s1] bound [OF t0 t1] assms half by linarith
  qed
  then show ?thesis
    unfolding f64_add_def f64_mul_def by (rule round_f64_tie_at_one)
qed


lemma round_half_even_lower: "q - 1 / 2 \<le> of_int (round_half_even q)"
proof -
  define r where "r = q - of_int \<lfloor>q\<rfloor>"
  have f: "of_int \<lfloor>q\<rfloor> = q - r" by (simp add: r_def)
  have r1: "r < 1" unfolding r_def by linarith
  have rhe: "round_half_even q =
      (if r < 1 / 2 then \<lfloor>q\<rfloor> else if 1 / 2 < r then \<lfloor>q\<rfloor> + 1
       else if even \<lfloor>q\<rfloor> then \<lfloor>q\<rfloor> else \<lfloor>q\<rfloor> + 1)"
    by (simp add: round_half_even_def Let_def r_def)
  consider "r < 1 / 2" | "1 / 2 < r" | "r = 1 / 2" by linarith
  then show ?thesis
  proof cases
    case 1
    then show ?thesis by (simp add: rhe f)
  next
    case 2
    then show ?thesis using r1 by (simp add: rhe f)
  next
    case 3
    then show ?thesis by (simp add: rhe f)
  qed
qed

lemma round_f64_lower_half_ulp:
  assumes "q \<noteq> 0"
  shows "q - pow2 (max (exponent q) (- 1022) - 53) \<le> round_f64 q"
proof -
  define e where "e = max (exponent q) (- 1022) - 52"
  have "q - pow2 e / 2 = (q / pow2 e - 1 / 2) * pow2 e"
    using pow2_pos [of e] by (simp add: algebra_simps)
  also have "\<dots> \<le> of_int (round_half_even (q / pow2 e)) * pow2 e"
    using round_half_even_lower [of "q / pow2 e"] pow2_pos [of e]
    by (simp only: mult_le_cancel_right_pos)
  also have "\<dots> = round_f64 q"
    using assms by (simp add: round_f64_def e_def Let_def)
  finally have "q - pow2 e / 2 \<le> round_f64 q" .
  moreover have "pow2 e / 2 = pow2 (e - 1)"
    using pow2_diff [of e 1] by (simp add: pow2_def [of 1])
  ultimately show ?thesis by (simp add: e_def)
qed

lemma round_f64_ge_pow2:
  assumes ge: "pow2 k \<le> q" and k: "- 1074 \<le> k"
  shows "pow2 k \<le> round_f64 q"
proof -
  have qpos: "0 < q" using ge pow2_pos [of k] by linarith
  then have q0: "q \<noteq> 0" by simp
  define e where "e = max (exponent q) (- 1022) - 52"
  have rf: "round_f64 q = of_int (round_half_even (q / pow2 e)) * pow2 e"
    using q0 by (simp add: round_f64_def e_def Let_def)
  have "pow2 k < pow2 (exponent q + 1)"
    using exponent_upper [OF q0] qpos ge by simp
  then have kx: "k \<le> exponent q"
    using pow2_mono [of "exponent q + 1" k] by (cases "k \<le> exponent q") simp_all
  define j where "j = max k (exponent q - 52)"
  have je: "e \<le> j" using k kx by (simp add: e_def j_def)
  have jq: "pow2 j \<le> q"
  proof (cases "k \<le> exponent q - 52")
    case True
    then have "j \<le> exponent q" by (simp add: j_def)
    then have "pow2 j \<le> pow2 (exponent q)" by (rule pow2_mono)
    then show ?thesis using exponent_lower [OF q0] qpos by simp
  next
    case False
    then show ?thesis using ge by (simp add: j_def max_def)
  qed
  have "pow2 j / pow2 e = pow2 (j - e)" by (simp add: pow2_diff)
  also have "\<dots> = of_int (2 ^ nat (j - e))" using je by (simp add: pow2_nonneg_of_int)
  finally have int: "pow2 j / pow2 e = of_int (2 ^ nat (j - e))" .
  have "pow2 j / pow2 e \<le> q / pow2 e"
    using jq pow2_pos [of e] by (simp add: divide_right_mono)
  from round_half_even_mono [OF this]
  have "2 ^ nat (j - e) \<le> round_half_even (q / pow2 e)"
    unfolding int round_half_even_of_int .
  then have "(of_int (2 ^ nat (j - e)) :: rat) \<le> of_int (round_half_even (q / pow2 e))"
    by (simp only: of_int_le_iff)
  then have "of_int (2 ^ nat (j - e)) * pow2 e \<le> of_int (round_half_even (q / pow2 e)) * pow2 e"
    using pow2_pos [of e] by (simp add: mult_right_mono)
  moreover have "of_int (2 ^ nat (j - e)) * pow2 e = pow2 j"
    using int [symmetric] pow2_pos [of e] by simp
  moreover have "pow2 k \<le> pow2 j" by (rule pow2_mono) (simp add: j_def)
  ultimately show ?thesis unfolding rf by linarith
qed

lemma round_f64_below_two:
  assumes "0 \<le> q" "round_f64 q < 2"
  shows "q < 2 \<and> q - pow2 (- 53) \<le> round_f64 q"
proof -
  have lt: "q < 2"
  proof (rule ccontr)
    assume "\<not> q < 2"
    then have "pow2 1 \<le> q" by (simp add: pow2_def)
    from round_f64_ge_pow2 [OF this] have "2 \<le> round_f64 q" by (simp add: pow2_def)
    then show False using assms(2) by simp
  qed
  show ?thesis
  proof (cases "q = 0")
    case True
    then show ?thesis using pow2_pos [of "- 53"] by (simp add: round_f64_def)
  next
    case False
    have "pow2 (exponent q) < pow2 1"
      using exponent_lower [OF False] assms(1) lt by (simp add: pow2_def [of 1])
    then have "exponent q < 1"
      using pow2_mono [of 1 "exponent q"] by (cases "exponent q < 1") simp_all
    then have "max (exponent q) (- 1022) - 53 \<le> - 53" by simp
    then have "pow2 (max (exponent q) (- 1022) - 53) \<le> pow2 (- 53)" by (rule pow2_mono)
    then show ?thesis using round_f64_lower_half_ulp [OF False] lt by linarith
  qed
qed

lemma nearly_inside_when_flagged:
  assumes "f64_add (f64_mul x x) (f64_mul y y) \<le> 1"
  shows "x * x + y * y < 1 + pow2 (- 51)"
proof -
  define a where "a = round_f64 (x * x)"
  define b where "b = round_f64 (y * y)"
  have a0: "0 \<le> a" and b0: "0 \<le> b"
    unfolding a_def b_def by (rule round_f64_nonneg, simp)+
  have "round_f64 (a + b) < 2"
    using assms by (simp add: f64_add_def f64_mul_def a_def b_def)
  from round_f64_below_two [OF _ this] a0 b0
  have ab: "a + b < 2" "a + b - pow2 (- 53) \<le> round_f64 (a + b)" by simp_all
  then have sum: "a + b \<le> 1 + pow2 (- 53)"
    using assms by (simp add: f64_add_def f64_mul_def a_def b_def)
  have "round_f64 (x * x) < 2" using ab(1) a0 b0 by (simp add: a_def)
  from round_f64_below_two [OF _ this] have xa: "x * x - pow2 (- 53) \<le> a"
    by (simp add: a_def)
  have "round_f64 (y * y) < 2" using ab(1) a0 b0 by (simp add: b_def)
  from round_f64_below_two [OF _ this] have yb: "y * y - pow2 (- 53) \<le> b"
    by (simp add: b_def)
  have "3 * pow2 (- 53) < pow2 (- 51)" by (simp add: pow2_def)
  then show ?thesis using sum xa yb by linarith
qed

text \<open>Known values, as a check of the definition: \<^verbatim>\<open>0.1\<close>, and \<^verbatim>\<open>0.1 + 0.2\<close>.\<close>

lemma round_f64_tenth: "round_f64 (1 / 10) = 3602879701896397 / 2 ^ 55"
  by code_simp

lemma f64_add_tenth_fifth:
  "f64_add (round_f64 (1 / 10)) (round_f64 (2 / 10)) = 5404319552844596 / 2 ^ 54"
  "f64_add (round_f64 (1 / 10)) (round_f64 (2 / 10)) \<noteq> round_f64 (3 / 10)"
  by code_simp+

lemma f64_div_ratio_bounds:
  assumes "0 \<le> k" "k \<le> n" "0 < n"
  shows "0 \<le> f64_div (of_int (4 * k)) (of_int n)" "f64_div (of_int (4 * k)) (of_int n) \<le> 4"
proof -
  have nn: "0 \<le> (of_int (4 * k) :: rat) / of_int n" using assms by simp
  show "0 \<le> f64_div (of_int (4 * k)) (of_int n)"
    unfolding f64_div_def by (rule round_f64_nonneg [OF nn])
  have "(of_int (4 * k) :: rat) \<le> 4 * of_int n" using assms(2) by simp
  then have "(of_int (4 * k) :: rat) / of_int n \<le> 4"
    using assms(3) by (simp add: pos_divide_le_eq)
  then have "(of_int (4 * k) :: rat) / of_int n \<le> pow2 2" by (simp add: pow2_def)
  from round_f64_le_pow2 [OF this]
  show "f64_div (of_int (4 * k)) (of_int n) \<le> 4" by (simp add: f64_div_def pow2_def)
qed

section \<open>Facts about the array operations\<close>

lemma counter_uniform_ok: "sampler_ok counter_uniform"
  by (simp add: sampler_ok_def counter_uniform_def)

lemma counter_uniform_in_range: "sampler_in_range counter_uniform"
proof -
  have "low \<le> low + (high - low) * (of_nat (m mod 8) / 8) \<and>
        low + (high - low) * (of_nat (m mod 8) / 8) \<le> high"
    if "low \<le> high" for low high :: rat and m :: nat
  proof -
    have "m mod 8 \<le> 8" by simp
    then have "(of_nat (m mod 8) :: rat) \<le> of_nat 8" by (rule of_nat_mono)
    then have f: "0 \<le> (of_nat (m mod 8) :: rat) / 8" "(of_nat (m mod 8) :: rat) / 8 \<le> 1"
      by simp_all
    have "0 \<le> (high - low) * (of_nat (m mod 8) / 8)"
      using that f(1) by simp
    moreover have "(high - low) * (of_nat (m mod 8) / 8) \<le> (high - low) * 1"
      using that f(2) by (intro mult_left_mono) simp_all
    ultimately show ?thesis by simp
  qed
  then show ?thesis
    by (auto simp add: sampler_in_range_def counter_uniform_def)
qed

lemma counter_uniform_draws:
  "counter_uniform (- 1) 1 3 0 = ([- 1, - 1 / 4, 1 / 2], 3)"
  "counter_uniform (- 1) 1 3 3 = ([- 3 / 4, 0, 3 / 4], 6)"
  by (simp_all add: counter_uniform_def upt_rec)

lemma round_f64_exact_values:
  "round_f64 0 = 0" "round_f64 1 = 1" "round_f64 (1 / 4) = 1 / 4" "round_f64 (1 / 16) = 1 / 16"
  "round_f64 (9 / 16) = 9 / 16" "round_f64 (13 / 16) = 13 / 16" "round_f64 (25 / 16) = 25 / 16"
  by code_simp+

lemma round_f64_eight_thirds:
  "round_f64 (8 / 3) = 6004799503160661 / 2251799813685248"
  by code_simp

lemma counter_uniform_run:
  "run_pi_simulation counter_uniform 3 (0::nat) = (Inr counter_run, 6)"
  by (simp add: run_pi_simulation_def and_then_def counter_uniform_draws np_square_def np_add_def
        np_le_scalar_def np_sum_def true_divide_def f64_mul_def f64_add_def f64_div_def
        round_f64_exact_values round_f64_eight_thirds counter_run_def)

lemma np_add_same_length:
  "length a = length b \<Longrightarrow> np_add a b = Inr (map2 f64_add a b)"
  by (simp add: np_add_def)

lemma np_sum_count: "np_sum m = int (count_list m True)"
  by (induction m) (simp_all add: np_sum_def)

lemma np_sum_le_length: "np_sum m \<le> int (length m)"
  unfolding np_sum_count using count_le_length [of m True] by simp

lemma np_sum_nonneg: "0 \<le> np_sum m"
  by (simp add: np_sum_count)

lemma length_flags_of: "length (flags_of x y) = min (length x) (length y)"
  by (simp add: flags_of_def)

lemma nth_flags_of:
  "i < length x \<Longrightarrow> i < length y \<Longrightarrow>
   flags_of x y ! i \<longleftrightarrow> f64_add (f64_mul (x ! i) (x ! i)) (f64_mul (y ! i) (y ! i)) \<le> 1"
  by (simp add: flags_of_def)

lemma flag_against_exact_sum:
  assumes "i < length x" "i < length y"
  shows "x ! i * x ! i + y ! i * y ! i \<le> 1 \<longrightarrow> flags_of x y ! i"
    and "flags_of x y ! i \<longrightarrow> x ! i * x ! i + y ! i * y ! i < 1 + 1 / 2 ^ 51"
  using assms inside_when_exactly_inside [of "x ! i" "y ! i"]
        nearly_inside_when_flagged [of "x ! i" "y ! i"]
  by (simp_all add: nth_flags_of pow2_def)

lemma flags_of_pointwise:
  assumes "length x = length y"
  shows "\<forall>i < length (flags_of x y).
           (flags_of x y ! i \<longleftrightarrow> f64_add (f64_mul (x ! i) (x ! i)) (f64_mul (y ! i) (y ! i)) \<le> 1)
           \<and> (x ! i * x ! i + y ! i * y ! i \<le> 1 \<longrightarrow> flags_of x y ! i)
           \<and> (flags_of x y ! i \<longrightarrow> x ! i * x ! i + y ! i * y ! i < 1 + 1 / 2 ^ 51)"
proof (intro allI impI)
  fix i
  assume "i < length (flags_of x y)"
  then have i: "i < length x" "i < length y"
    using assms by (simp_all add: length_flags_of)
  show "(flags_of x y ! i \<longleftrightarrow> f64_add (f64_mul (x ! i) (x ! i)) (f64_mul (y ! i) (y ! i)) \<le> 1)
           \<and> (x ! i * x ! i + y ! i * y ! i \<le> 1 \<longrightarrow> flags_of x y ! i)
           \<and> (flags_of x y ! i \<longrightarrow> x ! i * x ! i + y ! i * y ! i < 1 + 1 / 2 ^ 51)"
    using nth_flags_of [OF i] flag_against_exact_sum [OF i] by blast
qed

text \<open>
  The run on a positive count, in one equation: with a sampler that returns as many
  values as asked for, the addition never sees arrays of different lengths and the
  division always has a positive divisor.
\<close>

lemma run_pi_simulation_pos:
  fixes uniform :: "'s sampler" and rng :: 's and n :: int
  assumes ok: "sampler_ok uniform" and pos: "0 < n"
  defines "x \<equiv> fst (uniform (- 1) 1 (nat n) rng)"
  defines "rng1 \<equiv> snd (uniform (- 1) 1 (nat n) rng)"
  defines "y \<equiv> fst (uniform (- 1) 1 (nat n) rng1)"
  defines "rng2 \<equiv> snd (uniform (- 1) 1 (nat n) rng1)"
  shows "run_pi_simulation uniform n rng =
           (Inr \<lparr>x_coords = x, y_coords = y, is_inside = flags_of x y,
                 estimate = f64_div (of_int (4 * np_sum (flags_of x y))) (of_int n),
                 inside_count = np_sum (flags_of x y), total_count = n\<rparr>, rng2)"
    and "length x = nat n" and "length y = nat n"
proof -
  show lx: "length x = nat n" and ly: "length y = nat n"
    using ok by (simp_all add: sampler_ok_def x_def y_def)
  have add: "np_add (np_square x) (np_square y) =
               Inr (map2 (\<lambda>u v. f64_add (f64_mul u u) (f64_mul v v)) x y)"
    using lx ly by (auto simp add: np_add_same_length np_square_def zip_map_map)
  have fl: "np_le_scalar (map2 (\<lambda>u v. f64_add (f64_mul u u) (f64_mul v v)) x y) 1 = flags_of x y"
    by (auto simp add: np_le_scalar_def flags_of_def)
  show "run_pi_simulation uniform n rng =
           (Inr \<lparr>x_coords = x, y_coords = y, is_inside = flags_of x y,
                 estimate = f64_div (of_int (4 * np_sum (flags_of x y))) (of_int n),
                 inside_count = np_sum (flags_of x y), total_count = n\<rparr>, rng2)"
    using pos add fl
    by (simp add: run_pi_simulation_def and_then_def Let_def split_beta true_divide_def
                  x_def [symmetric] y_def [symmetric] rng1_def [symmetric] rng2_def [symmetric])
qed

lemma run_pi_simulation_nonpos:
  "n \<le> 0 \<Longrightarrow>
   run_pi_simulation uniform n rng =
     (Inr \<lparr>x_coords = [], y_coords = [], is_inside = [],
           estimate = 0, inside_count = 0, total_count = 0\<rparr>, rng)"
  by (simp add: run_pi_simulation_def)

section \<open>Properties of the simulation\<close>

text \<open>
  C4: called with \<open>n = 0\<close>, the simulation returns empty coordinate and flag sequences,
  \<open>points_inside = 0\<close>, \<open>points_total = 0\<close> and \<open>pi_estimate = 0\<close>, and raises no error;
  the random source is not touched.
\<close>

theorem simulate_zero_points:
  "run_pi_simulation uniform 0 rng =
     (Inr \<lparr>x_coords = [], y_coords = [], is_inside = [],
           estimate = 0, inside_count = 0, total_count = 0\<rparr>, rng)"
  by (simp add: run_pi_simulation_def)

text \<open>
  C1: for every generated point \<open>i\<close>, the inside flag is true if and only if
  \<open>x[i]\<^sup>2 + y[i]\<^sup>2 \<le> 1\<close>, the boundary included.  The sum of squares is the float64
  value the program computes (\<^verbatim>\<open>distance_sq\<close>, line 77), and the coordinate arrays are as
  long as the flag array, so every flag has its point.  Against the exact sum of squares
  the flag differs by rounding only: a point with exact \<open>x\<^sup>2 + y\<^sup>2 \<le> 1\<close> is always flagged,
  and a flagged point has exact \<open>x\<^sup>2 + y\<^sup>2 < 1 + 2\<^sup>-\<^sup>5\<^sup>1\<close>.
\<close>

theorem inside_flag_iff_distance_sq_le_one:
  assumes "sampler_ok uniform"
  shows "\<exists>r rng'. run_pi_simulation uniform n rng = (Inr r, rng')
           \<and> length (x_coords r) = length (is_inside r)
           \<and> length (y_coords r) = length (is_inside r)
           \<and> (\<forall>i < length (is_inside r).
                 (is_inside r ! i \<longleftrightarrow>
                    f64_add (f64_mul (x_coords r ! i) (x_coords r ! i))
                            (f64_mul (y_coords r ! i) (y_coords r ! i)) \<le> 1)
                 \<and> (x_coords r ! i * x_coords r ! i + y_coords r ! i * y_coords r ! i \<le> 1
                      \<longrightarrow> is_inside r ! i)
                 \<and> (is_inside r ! i \<longrightarrow>
                      x_coords r ! i * x_coords r ! i + y_coords r ! i * y_coords r ! i
                        < 1 + 1 / 2 ^ 51))"
proof (cases "n \<le> 0")
  case True
  then show ?thesis by (simp add: run_pi_simulation_nonpos)
next
  case False
  then have pos: "0 < n" by simp
  note run = run_pi_simulation_pos [OF assms pos, of rng]
  have "length (fst (uniform (- 1) 1 (nat n) rng)) =
        length (fst (uniform (- 1) 1 (nat n) (snd (uniform (- 1) 1 (nat n) rng))))"
    using run(2,3) by simp
  from flags_of_pointwise [OF this] show ?thesis
    unfolding run(1) using run(2,3) by (auto simp add: length_flags_of)
qed

theorem inside_flag_iff_distance_sq_le_one_witness:
  "sampler_ok counter_uniform \<and>
   (\<exists>r rng'. run_pi_simulation counter_uniform 3 (0::nat) = (Inr r, rng')
      \<and> r = counter_run \<and> rng' = 6
      \<and> length (x_coords r) = length (is_inside r)
      \<and> length (y_coords r) = length (is_inside r)
      \<and> (\<forall>i < length (is_inside r).
            (is_inside r ! i \<longleftrightarrow>
               f64_add (f64_mul (x_coords r ! i) (x_coords r ! i))
                       (f64_mul (y_coords r ! i) (y_coords r ! i)) \<le> 1)
            \<and> (x_coords r ! i * x_coords r ! i + y_coords r ! i * y_coords r ! i \<le> 1
                 \<longrightarrow> is_inside r ! i)
            \<and> (is_inside r ! i \<longrightarrow>
                 x_coords r ! i * x_coords r ! i + y_coords r ! i * y_coords r ! i
                   < 1 + 1 / 2 ^ 51)))"
  using inside_flag_iff_distance_sq_le_one [OF counter_uniform_ok, of 3 0]
        counter_uniform_ok counter_uniform_run
  by auto

text \<open>
  C2: the returned estimate is \<open>4 * points_inside / points_total\<close> (the float64 quotient)
  whenever \<open>points_total > 0\<close>, and \<open>0\<close> when \<open>points_total = 0\<close>; the division is guarded,
  so whatever the sampler returns the run never ends in a division error.
\<close>

theorem estimate_is_guarded_quotient:
  "fst (run_pi_simulation uniform n rng) \<noteq> Inl ZeroDivisionError \<and>
   (sampler_ok uniform \<longrightarrow>
      (\<exists>r rng'. run_pi_simulation uniform n rng = (Inr r, rng')
         \<and> (0 < total_count r \<longrightarrow>
               true_divide (4 * inside_count r) (total_count r) = Inr (estimate r)
               \<and> estimate r = f64_div (of_int (4 * inside_count r)) (of_int (total_count r)))
         \<and> (total_count r = 0 \<longrightarrow> estimate r = 0)))"
proof
  show "fst (run_pi_simulation uniform n rng) \<noteq> Inl ZeroDivisionError"
    by (auto simp add: run_pi_simulation_def and_then_def Let_def split_beta true_divide_def
             np_add_def split: sum.splits if_splits)
next
  show "sampler_ok uniform \<longrightarrow>
      (\<exists>r rng'. run_pi_simulation uniform n rng = (Inr r, rng')
         \<and> (0 < total_count r \<longrightarrow>
               true_divide (4 * inside_count r) (total_count r) = Inr (estimate r)
               \<and> estimate r = f64_div (of_int (4 * inside_count r)) (of_int (total_count r)))
         \<and> (total_count r = 0 \<longrightarrow> estimate r = 0))"
  proof
    assume ok: "sampler_ok uniform"
    show "\<exists>r rng'. run_pi_simulation uniform n rng = (Inr r, rng')
         \<and> (0 < total_count r \<longrightarrow>
               true_divide (4 * inside_count r) (total_count r) = Inr (estimate r)
               \<and> estimate r = f64_div (of_int (4 * inside_count r)) (of_int (total_count r)))
         \<and> (total_count r = 0 \<longrightarrow> estimate r = 0)"
    proof (cases "n \<le> 0")
      case True
      then show ?thesis by (simp add: run_pi_simulation_nonpos)
    next
      case False
      then have pos: "0 < n" by simp
      note run = run_pi_simulation_pos [OF ok pos, of rng]
      show ?thesis unfolding run(1) using pos by (simp add: true_divide_def)
    qed
  qed
qed

theorem estimate_is_guarded_quotient_witness:
  "sampler_ok counter_uniform \<and>
   fst (run_pi_simulation counter_uniform 3 (0::nat)) \<noteq> Inl ZeroDivisionError \<and>
   (\<exists>r rng'. run_pi_simulation counter_uniform 3 (0::nat) = (Inr r, rng') \<and> r = counter_run \<and> rng' = 6
      \<and> (0 < total_count r \<longrightarrow>
            true_divide (4 * inside_count r) (total_count r) = Inr (estimate r)
            \<and> estimate r = f64_div (of_int (4 * inside_count r)) (of_int (total_count r)))
      \<and> (total_count r = 0 \<longrightarrow> estimate r = 0))"
  using estimate_is_guarded_quotient [of counter_uniform 3 0] counter_uniform_ok counter_uniform_run
  by auto

text \<open>
  C3: for every \<open>n \<ge> 1\<close> the simulation returns x, y and flag sequences of length exactly
  \<open>n\<close>; for every \<open>n\<close> the three sequences have the same length, the returned
  \<open>points_total\<close>.
\<close>

theorem simulate_sequence_lengths:
  assumes "sampler_ok uniform"
  shows "\<exists>r rng'. run_pi_simulation uniform n rng = (Inr r, rng')
           \<and> (1 \<le> n \<longrightarrow> length (x_coords r) = nat n \<and> length (y_coords r) = nat n
                          \<and> length (is_inside r) = nat n)
           \<and> length (x_coords r) = nat (total_count r)
           \<and> length (y_coords r) = nat (total_count r)
           \<and> length (is_inside r) = nat (total_count r)"
proof (cases "n \<le> 0")
  case True
  then show ?thesis by (simp add: run_pi_simulation_nonpos)
next
  case False
  then have pos: "0 < n" by simp
  note run = run_pi_simulation_pos [OF assms pos, of rng]
  show ?thesis
    unfolding run(1) using run(2,3) by (simp add: length_flags_of)
qed

theorem simulate_sequence_lengths_witness:
  "sampler_ok counter_uniform \<and>
   (\<exists>r rng'. run_pi_simulation counter_uniform 3 (0::nat) = (Inr r, rng') \<and> r = counter_run \<and> rng' = 6
      \<and> (1 \<le> (3::int) \<longrightarrow> length (x_coords r) = nat 3 \<and> length (y_coords r) = nat 3
                     \<and> length (is_inside r) = nat 3)
      \<and> length (x_coords r) = nat (total_count r)
      \<and> length (y_coords r) = nat (total_count r)
      \<and> length (is_inside r) = nat (total_count r))"
  using simulate_sequence_lengths [OF counter_uniform_ok, of 3 0] counter_uniform_ok counter_uniform_run
  by auto

text \<open>
  C5: for every run, \<open>points_inside\<close> is the number of true entries of the flag sequence,
  and \<open>points_inside \<le> points_total\<close>.
\<close>

theorem inside_count_is_number_of_true_flags:
  assumes "sampler_ok uniform"
  shows "\<exists>r rng'. run_pi_simulation uniform n rng = (Inr r, rng')
           \<and> inside_count r = int (count_list (is_inside r) True)
           \<and> inside_count r \<le> total_count r"
proof (cases "n \<le> 0")
  case True
  then show ?thesis by (simp add: run_pi_simulation_nonpos)
next
  case False
  then have pos: "0 < n" by simp
  note run = run_pi_simulation_pos [OF assms pos, of rng]
  have "np_sum (flags_of (fst (uniform (- 1) 1 (nat n) rng))
          (fst (uniform (- 1) 1 (nat n) (snd (uniform (- 1) 1 (nat n) rng))))) \<le> n"
    using np_sum_le_length [of "flags_of (fst (uniform (- 1) 1 (nat n) rng))
          (fst (uniform (- 1) 1 (nat n) (snd (uniform (- 1) 1 (nat n) rng))))"] run(2,3) pos
    by (simp add: length_flags_of)
  then show ?thesis
    unfolding run(1) by (simp add: np_sum_count)
qed

theorem inside_count_is_number_of_true_flags_witness:
  "sampler_ok counter_uniform \<and>
   (\<exists>r rng'. run_pi_simulation counter_uniform 3 (0::nat) = (Inr r, rng') \<and> r = counter_run \<and> rng' = 6
      \<and> inside_count r = int (count_list (is_inside r) True)
      \<and> inside_count r \<le> total_count r)"
  using inside_count_is_number_of_true_flags [OF counter_uniform_ok, of 3 0] counter_uniform_ok counter_uniform_run
  by auto

text \<open>
  C6: a stand-in sampler that returns the points \<open>(1,0), (0,1), (1,1), (0.1,0.1)\<close> for
  \<open>n = 4\<close> yields the flags \<open>[true, true, false, true]\<close>, \<open>points_inside = 3\<close> and
  \<open>pi_estimate = 3.0\<close>.  The float64 literal \<^verbatim>\<open>0.1\<close> is \<open>round_f64 (1 / 10)\<close>.
\<close>

theorem stand_in_sampler_scenario:
  "run_pi_simulation scripted_uniform 4
     [[1, 0, 1, round_f64 (1 / 10)], [0, 1, 1, round_f64 (1 / 10)]] =
   (Inr \<lparr>x_coords = [1, 0, 1, round_f64 (1 / 10)],
         y_coords = [0, 1, 1, round_f64 (1 / 10)],
         is_inside = [True, True, False, True],
         estimate = 3, inside_count = 3, total_count = 4\<rparr>, [])"
  by code_simp

text \<open>
  C9: for every negative \<open>n\<close> the simulation returns what it returns for \<open>n = 0\<close>: empty
  sequences, \<open>points_inside = points_total = 0\<close> and \<open>pi_estimate = 0\<close>, and no error,
  because the guard of line 69 tests \<open>num_points \<le> 0\<close>.
\<close>

theorem negative_count_gives_empty_result:
  assumes "n < 0"
  shows "run_pi_simulation uniform n rng = run_pi_simulation uniform 0 rng \<and>
         run_pi_simulation uniform n rng =
           (Inr \<lparr>x_coords = [], y_coords = [], is_inside = [],
                 estimate = 0, inside_count = 0, total_count = 0\<rparr>, rng)"
  using assms by (simp add: run_pi_simulation_def)

theorem negative_count_gives_empty_result_witness:
  "(- 5 :: int) < 0 \<and>
   run_pi_simulation counter_uniform (- 5) (0::nat) = run_pi_simulation counter_uniform 0 0 \<and>
   run_pi_simulation counter_uniform (- 5) (0::nat) =
     (Inr \<lparr>x_coords = [], y_coords = [], is_inside = [],
           estimate = 0, inside_count = 0, total_count = 0\<rparr>, 0)"
  using negative_count_gives_empty_result [of "- 5" counter_uniform 0]
  by auto

text \<open>
  C10: for every input \<open>n\<close> the returned estimate lies in the closed interval \<open>[0, 4]\<close>,
  since \<open>points_inside\<close> lies between \<open>0\<close> and \<open>points_total\<close> and the float64 division
  rounds a quotient in \<open>[0, 4]\<close> to a value in \<open>[0, 4]\<close>.
\<close>

theorem estimate_between_zero_and_four:
  assumes "sampler_ok uniform"
  shows "\<exists>r rng'. run_pi_simulation uniform n rng = (Inr r, rng')
           \<and> 0 \<le> inside_count r \<and> inside_count r \<le> total_count r
           \<and> 0 \<le> estimate r \<and> estimate r \<le> 4"
proof (cases "n \<le> 0")
  case True
  then show ?thesis by (simp add: run_pi_simulation_nonpos)
next
  case False
  then have pos: "0 < n" by simp
  note run = run_pi_simulation_pos [OF assms pos, of rng]
  define flags where
    "flags = flags_of (fst (uniform (- 1) 1 (nat n) rng))
               (fst (uniform (- 1) 1 (nat n) (snd (uniform (- 1) 1 (nat n) rng))))"
  have len: "length flags = nat n"
    using run(2,3) by (simp add: flags_def length_flags_of)
  have k0: "0 \<le> np_sum flags" by (rule np_sum_nonneg)
  have kn: "np_sum flags \<le> n" using np_sum_le_length [of flags] len pos by simp
  note b = f64_div_ratio_bounds [OF k0 kn pos]
  show ?thesis
    unfolding run(1) flags_def [symmetric] using k0 kn b by simp
qed

theorem estimate_between_zero_and_four_witness:
  "sampler_ok counter_uniform \<and>
   (\<exists>r rng'. run_pi_simulation counter_uniform 3 (0::nat) = (Inr r, rng') \<and> r = counter_run \<and> rng' = 6
      \<and> 0 \<le> inside_count r \<and> inside_count r \<le> total_count r
      \<and> 0 \<le> estimate r \<and> estimate r \<le> 4)"
  using estimate_between_zero_and_four [OF counter_uniform_ok, of 3 0] counter_uniform_ok counter_uniform_run
  by auto

text \<open>
  C7: every x and y coordinate the simulation returns lies in the closed interval
  \<open>[-1, 1]\<close>, and each is a draw of the uniform sampler on that interval: the two arrays
  are what \<open>uniform\<close> returns for \<open>low = -1\<close> and \<open>high = 1\<close>, unchanged.
\<close>

theorem coordinates_in_closed_interval:
  assumes "sampler_ok uniform" and "sampler_in_range uniform"
  shows "\<exists>r rng'. run_pi_simulation uniform n rng = (Inr r, rng')
           \<and> (\<forall>v \<in> set (x_coords r). - 1 \<le> v \<and> v \<le> 1)
           \<and> (\<forall>v \<in> set (y_coords r). - 1 \<le> v \<and> v \<le> 1)
           \<and> (0 < n \<longrightarrow>
                 x_coords r = fst (uniform (- 1) 1 (nat n) rng) \<and>
                 y_coords r = fst (uniform (- 1) 1 (nat n) (snd (uniform (- 1) 1 (nat n) rng))))"
proof (cases "n \<le> 0")
  case True
  then show ?thesis by (simp add: run_pi_simulation_nonpos)
next
  case False
  then have pos: "0 < n" by simp
  note run = run_pi_simulation_pos [OF assms(1) pos, of rng]
  have range: "\<forall>v \<in> set (fst (uniform (- 1) 1 (nat n) s)). - 1 \<le> v \<and> v \<le> 1" for s
  proof -
    have "(- 1 :: rat) \<le> 1" by simp
    with assms(2) show ?thesis unfolding sampler_in_range_def by blast
  qed
  show ?thesis
    unfolding run(1) using pos range by simp
qed

theorem coordinates_in_closed_interval_witness:
  "sampler_ok counter_uniform \<and> sampler_in_range counter_uniform \<and>
   (\<exists>r rng'. run_pi_simulation counter_uniform 3 (0::nat) = (Inr r, rng')
      \<and> r = counter_run \<and> rng' = 6
      \<and> (\<forall>v \<in> set (x_coords r). - 1 \<le> v \<and> v \<le> 1)
      \<and> (\<forall>v \<in> set (y_coords r). - 1 \<le> v \<and> v \<le> 1)
      \<and> (0 < (3::int) \<longrightarrow>
            x_coords r = fst (counter_uniform (- 1) 1 (nat 3) 0) \<and>
            y_coords r = fst (counter_uniform (- 1) 1 (nat 3)
                                (snd (counter_uniform (- 1) 1 (nat 3) 0)))))"
  using coordinates_in_closed_interval
          [OF counter_uniform_ok counter_uniform_in_range, of 3 0]
        counter_uniform_ok counter_uniform_in_range counter_uniform_run
  by auto

section \<open>Properties of the plot\<close>

text \<open>
  C8: with \<open>points_total = 0\<close> the plot function returns a figure and raises no error,
  whatever arrays it is given; the figure carries the centred placeholder message and has
  no scatter, no annotation box and no legend.
\<close>

theorem plot_without_points:
  "\<exists>fig. plot_simulation x y inside_circle pi_estimate points_inside 0 = Inr fig
      \<and> Text 0 0 (Plain ''No points generated'') ''center'' ''center'' None \<in> set (axes_calls fig)
      \<and> \<not> list_ex is_scatter (axes_calls fig)
      \<and> \<not> list_ex is_boxed_text (axes_calls fig)
      \<and> \<not> list_ex is_legend (axes_calls fig)"
  by (simp add: plot_simulation_def and_then_def)

end
